theory Spec2Isabelle
  imports Main
begin

section \<open>Python string operations used by \<open>dump.py\<close>\<close>

text \<open>
  Strings are \<open>char list\<close>. The model covers URLs, hrefs and paths made of ASCII
  characters, which is what the crawler builds and compares.
\<close>

definition startswith :: "string \<Rightarrow> string \<Rightarrow> bool" where
  "startswith s p = (take (length p) s = p)"

definition endswith :: "string \<Rightarrow> string \<Rightarrow> bool" where
  "endswith s p = (length p \<le> length s \<and> drop (length s - length p) s = p)"

text \<open>\<open>sub in s\<close>: the substring test.\<close>

fun contains :: "string \<Rightarrow> string \<Rightarrow> bool" where
  "contains [] sub = (sub = [])"
| "contains (c # cs) sub = (startswith (c # cs) sub \<or> contains cs sub)"

text \<open>\<open>s.lstrip('/')\<close> and \<open>s.rstrip('/')\<close>.\<close>

definition lstrip_slash :: "string \<Rightarrow> string" where
  "lstrip_slash s = dropWhile (\<lambda>c. c = CHR ''/'') s"

definition rstrip_slash :: "string \<Rightarrow> string" where
  "rstrip_slash s = rev (dropWhile (\<lambda>c. c = CHR ''/'') (rev s))"

text \<open>
  \<open>s.strip()\<close> with no argument removes leading and trailing whitespace; on ASCII
  these are the characters 9 to 13, 28 to 31 and the space.
\<close>

definition is_space :: "char \<Rightarrow> bool" where
  "is_space c = (c \<in> set [CHR 0x09, CHR 0x0A, CHR 0x0B, CHR 0x0C, CHR 0x0D,
                            CHR 0x1C, CHR 0x1D, CHR 0x1E, CHR 0x1F, CHR '' ''])"

definition strip :: "string \<Rightarrow> string" where
  "strip s = rev (dropWhile is_space (rev (dropWhile is_space s)))"

text \<open>
  \<open>s.replace(old, '')\<close>: the occurrences of \<open>old\<close> are found from left to right,
  without overlap, in one pass over \<open>s\<close>; what the removals bring together is not
  looked at again. With an empty \<open>old\<close> and an empty replacement the string is unchanged.
\<close>

function replace_del :: "string \<Rightarrow> string \<Rightarrow> string" where
  "replace_del old [] = []"
| "replace_del old (c # cs) =
     (if old \<noteq> [] \<and> startswith (c # cs) old
      then replace_del old (drop (length old) (c # cs))
      else c # replace_del old cs)"
  by pat_completeness auto
termination
  by (relation "measure (\<lambda>(old, s). length s)") (auto simp: startswith_def)

text \<open>\<open>s.split(sep)\<close> for a one-character separator, and \<open>sep.join(parts)\<close>.\<close>

fun split_on :: "char \<Rightarrow> string \<Rightarrow> string list" where
  "split_on sep [] = [[]]"
| "split_on sep (c # cs) =
     (if c = sep then [] # split_on sep cs
      else (c # hd (split_on sep cs)) # tl (split_on sep cs))"

fun join_with :: "string \<Rightarrow> string list \<Rightarrow> string" where
  "join_with sep [] = []"
| "join_with sep [x] = x"
| "join_with sep (x # y # ys) = x @ sep @ join_with sep (y # ys)"

text \<open>
  \<open>os.path.join(a, b)\<close> of \<open>posixpath\<close>, for two components: an absolute \<open>b\<close>
  discards \<open>a\<close>; otherwise the two are joined by one separator unless \<open>a\<close> is empty
  or already ends with one.
\<close>

definition path_join :: "string \<Rightarrow> string \<Rightarrow> string" where
  "path_join a b =
     (if startswith b ''/'' then b
      else if a = [] \<or> endswith a ''/'' then a @ b
      else a @ ''/'' @ b)"

section \<open>The part of \<open>urllib.parse\<close> the crawler calls\<close>

text \<open>
  \<open>urlparse\<close> and \<open>urljoin\<close> belong to Python's standard library, not to the
  repository. They are modelled after CPython's \<open>urllib/parse.py\<close>, for text URLs of
  printable ASCII characters without brackets in the network location (so that no
  \<open>ValueError\<close> is raised and no character is removed before splitting).
\<close>

record parse_result =
  scheme :: string
  netloc :: string
  path :: string
  params :: string
  query :: string
  fragment :: string

definition ascii_letters :: string where
  "ascii_letters = ''abcdefghijklmnopqrstuvwxyzABCDEFGHIJKLMNOPQRSTUVWXYZ''"

definition scheme_chars :: string where
  "scheme_chars = ascii_letters @ ''0123456789+-.''"

definition lower_char :: "char \<Rightarrow> char" where
  "lower_char c =
     (case map_of (zip ''ABCDEFGHIJKLMNOPQRSTUVWXYZ'' ''abcdefghijklmnopqrstuvwxyz'') c of
        Some l \<Rightarrow> l
      | None \<Rightarrow> c)"

definition uses_relative :: "string list" where
  "uses_relative = ['''', ''ftp'', ''http'', ''gopher'', ''nntp'', ''imap'', ''wais'',
     ''file'', ''https'', ''shttp'', ''mms'', ''prospero'', ''rtsp'', ''rtsps'', ''rtspu'',
     ''sftp'', ''svn'', ''svn+ssh'', ''ws'', ''wss'']"

definition uses_netloc :: "string list" where
  "uses_netloc = ['''', ''ftp'', ''http'', ''gopher'', ''nntp'', ''telnet'', ''imap'',
     ''wais'', ''file'', ''mms'', ''https'', ''shttp'', ''snews'', ''prospero'', ''rtsp'',
     ''rtsps'', ''rtspu'', ''rsync'', ''svn'', ''svn+ssh'', ''sftp'', ''nfs'', ''git'',
     ''git+ssh'', ''ws'', ''wss'', ''itms-services'']"

definition uses_params :: "string list" where
  "uses_params = ['''', ''ftp'', ''hdl'', ''prospero'', ''http'', ''imap'', ''https'',
     ''shttp'', ''rtsp'', ''rtsps'', ''rtspu'', ''sip'', ''sips'', ''mms'', ''sftp'',
     ''tel'']"

text \<open>
  \<open>urlsplit(url, scheme)\<close>: a leading \<open>name:\<close> made of scheme characters and
  starting with a letter is the scheme; after \<open>//\<close> the network location runs up to
  the first of \<open>/\<close>, \<open>?\<close>, \<open>#\<close>; the fragment is what follows the first \<open>#\<close>
  and the query what follows the first \<open>?\<close> before it.
\<close>

definition split_scheme :: "string \<Rightarrow> string \<Rightarrow> string \<times> string" where
  "split_scheme dflt url =
     (let pre = takeWhile (\<lambda>c. c \<noteq> CHR '':'') url in
      if CHR '':'' \<in> set url \<and> pre \<noteq> [] \<and> hd pre \<in> set ascii_letters
           \<and> list_all (\<lambda>c. c \<in> set scheme_chars) pre
      then (map lower_char pre, drop (length pre + 1) url)
      else (dflt, url))"

definition is_netloc_delim :: "char \<Rightarrow> bool" where
  "is_netloc_delim c = (c = CHR ''/'' \<or> c = CHR ''?'' \<or> c = CHR ''#'')"

definition split_netloc :: "string \<Rightarrow> string \<times> string" where
  "split_netloc url =
     (if startswith url ''//''
      then (takeWhile (\<lambda>c. \<not> is_netloc_delim c) (drop 2 url),
            dropWhile (\<lambda>c. \<not> is_netloc_delim c) (drop 2 url))
      else ('''', url))"

text \<open>\<open>a, b = s.split(sep, 1)\<close> when \<open>sep\<close> occurs in \<open>s\<close>; otherwise \<open>s\<close> and the empty string.\<close>

definition split_first :: "char \<Rightarrow> string \<Rightarrow> string \<times> string" where
  "split_first sep s =
     (takeWhile (\<lambda>c. c \<noteq> sep) s, drop 1 (dropWhile (\<lambda>c. c \<noteq> sep) s))"

definition urlsplit :: "string \<Rightarrow> string \<Rightarrow> parse_result" where
  "urlsplit url dflt =
     (let (sch, rest1) = split_scheme dflt url;
          (loc, rest2) = split_netloc rest1;
          (rest3, frag) = split_first (CHR ''#'') rest2;
          (rest4, qry) = split_first (CHR ''?'') rest3
      in \<lparr>scheme = sch, netloc = loc, path = rest4, params = '''', query = qry,
          fragment = frag\<rparr>)"

text \<open>
  \<open>_splitparams\<close>: the parameters follow the first \<open>;\<close> of the last path segment.
\<close>

definition splitparams :: "string \<Rightarrow> string \<times> string" where
  "splitparams url =
     (let segs = split_on (CHR ''/'') url;
          front = join_with ''/'' (butlast segs);
          lst = last segs;
          sep = (if length segs > 1 then ''/'' else '''')
      in if CHR '';'' \<in> set lst
         then (front @ sep @ takeWhile (\<lambda>c. c \<noteq> CHR '';'') lst,
               drop 1 (dropWhile (\<lambda>c. c \<noteq> CHR '';'') lst))
         else (url, ''''))"

definition urlparse :: "string \<Rightarrow> string \<Rightarrow> parse_result" where
  "urlparse url dflt =
     (let r = urlsplit url dflt in
      if scheme r \<in> set uses_params \<and> CHR '';'' \<in> set (path r)
      then (let (p, ps) = splitparams (path r) in r\<lparr>path := p, params := ps\<rparr>)
      else r)"

definition urlunsplit :: "parse_result \<Rightarrow> string" where
  "urlunsplit r =
     (let url = path r;
          url = (if netloc r \<noteq> [] \<or>
                    (scheme r \<noteq> [] \<and> scheme r \<in> set uses_netloc \<and> take 2 url \<noteq> ''//'')
                 then ''//'' @ netloc r @
                      (if url \<noteq> [] \<and> take 1 url \<noteq> ''/'' then ''/'' @ url else url)
                 else url);
          url = (if scheme r \<noteq> [] then scheme r @ '':'' @ url else url);
          url = (if query r \<noteq> [] then url @ ''?'' @ query r else url);
          url = (if fragment r \<noteq> [] then url @ ''#'' @ fragment r else url)
      in url)"

definition urlunparse :: "parse_result \<Rightarrow> string" where
  "urlunparse r =
     urlunsplit (if params r \<noteq> [] then r\<lparr>path := path r @ '';'' @ params r\<rparr> else r)"

text \<open>
  The path resolution of \<open>urljoin\<close>: \<open>..\<close> pops the last resolved segment (and is
  ignored when there is none), \<open>.\<close> is skipped, any other segment is appended.
\<close>

fun resolve_segments :: "string list \<Rightarrow> string list \<Rightarrow> string list" where
  "resolve_segments [] resolved = resolved"
| "resolve_segments (seg # segs) resolved =
     (if seg = ''..'' then resolve_segments segs (butlast resolved)
      else if seg = ''.'' then resolve_segments segs resolved
      else resolve_segments segs (resolved @ [seg]))"

text \<open>\<open>segments[1:-1] = filter(None, segments[1:-1])\<close>.\<close>

definition filter_middle :: "string list \<Rightarrow> string list" where
  "filter_middle segs =
     (if length segs < 2 then segs
      else hd segs # filter (\<lambda>s. s \<noteq> []) (butlast (tl segs)) @ [last segs])"

definition urljoin :: "string \<Rightarrow> string \<Rightarrow> string" where
  "urljoin base url =
     (if base = [] then url
      else if url = [] then base
      else
        let b = urlparse base '''';
            u = urlparse url (scheme b)
        in if scheme u \<noteq> scheme b \<or> scheme u \<notin> set uses_relative then url
           else if scheme u \<in> set uses_netloc \<and> netloc u \<noteq> [] then urlunparse u
           else
             let u = (if scheme u \<in> set uses_netloc then u\<lparr>netloc := netloc b\<rparr> else u)
             in if path u = [] \<and> params u = []
                then urlunparse (u\<lparr>path := path b, params := params b,
                       query := (if query u = [] then query b else query u)\<rparr>)
                else
                  let base_parts = split_on (CHR ''/'') (path b);
                      base_parts = (if last base_parts \<noteq> [] then butlast base_parts
                                    else base_parts);
                      segments = (if take 1 (path u) = ''/'' then split_on (CHR ''/'') (path u)
                                  else filter_middle (base_parts @ split_on (CHR ''/'') (path u)));
                      resolved = resolve_segments segments [];
                      resolved = (if last segments = ''.'' \<or> last segments = ''..''
                                  then resolved @ [[]] else resolved);
                      joined = join_with ''/'' resolved
                  in urlunparse (u\<lparr>path := (if joined = [] then ''/'' else joined)\<rparr>))"

section \<open>The Path Mapper: \<open>get_local_path\<close>\<close>

text \<open>
  Lines 130 to 137 of \<open>get_local_path\<close>: the leading slashes are stripped, one trailing
  slash is removed, then \<open>../\<close> and after it \<open>./\<close> are deleted by \<open>str.replace\<close>.
\<close>

definition sanitize :: "string \<Rightarrow> string" where
  "sanitize p = replace_del ''./'' (replace_del ''../'' p)"

definition relative_path :: "string \<Rightarrow> string" where
  "relative_path url_path =
     (let p = lstrip_slash url_path;
          p = (if endswith p ''/'' then butlast p else p)
      in sanitize p)"

definition get_local_path :: "string \<Rightarrow> string \<Rightarrow> string" where
  "get_local_path output_dir url =
     path_join output_dir (relative_path (path (urlparse url '''')))"

section \<open>The Listing Parser: \<open>parse_directory_listing\<close>\<close>

text \<open>
  BeautifulSoup is an external library. A page is represented by what
  \<open>soup.find_all('a')\<close> returns: the anchor elements in document order, each with its
  \<open>href\<close> attribute (absent or a string) and its text.
\<close>

record link =
  attr_href :: "string option"
  link_text :: string

type_synonym page = "link list"

record items =
  files :: "string list"
  directories :: "string list"

text \<open>\<open>link.get('href', '').strip()\<close>\<close>

definition href_of :: "link \<Rightarrow> string" where
  "href_of l = strip (case attr_href l of None \<Rightarrow> '''' | Some h \<Rightarrow> h)"

text \<open>The condition of line 43, under which the loop continues with the next link.\<close>

definition skipped :: "link \<Rightarrow> bool" where
  "skipped l =
     (href_of l \<in> set ['''', ''../'', ''./'', ''/''] \<or> startswith (href_of l) ''?''
      \<or> contains (link_text l) ''Parent Directory'')"

fun parse_links :: "link list \<Rightarrow> string \<Rightarrow> items \<Rightarrow> items" where
  "parse_links [] base_url its = its"
| "parse_links (l # ls) base_url its =
     (if skipped l then parse_links ls base_url its
      else
        let full_url = urljoin (base_url @ ''/'') (href_of l)
        in if endswith (href_of l) ''/''
           then parse_links ls base_url (its\<lparr>directories := directories its @ [full_url]\<rparr>)
           else parse_links ls base_url (its\<lparr>files := files its @ [full_url]\<rparr>))"

definition parse_directory_listing :: "page \<Rightarrow> string \<Rightarrow> items" where
  "parse_directory_listing html_content base_url =
     parse_links html_content base_url \<lparr>files = [], directories = []\<rparr>"

section \<open>The server and the disk\<close>

text \<open>
  The outcome of \<open>session.get\<close> followed by \<open>raise_for_status\<close>: an exception
  (timeout, connection error, a status that is not a success), or a response with its
  \<open>content-type\<close> header and its body.
\<close>

datatype fetch = FetchError | Response string string

text \<open>
  The world the downloader runs in. The server's content is fixed: a URL is answered
  the same way every time. \<open>listing url\<close> is the page a directory fetch returns
  (\<open>None\<close> when the fetch or the parsing raises), \<open>response url\<close> the answer to a file
  fetch. \<open>makedirs_fails p\<close> tells whether the parent directory of \<open>p\<close> cannot be
  created.
\<close>

record env =
  listing :: "string \<Rightarrow> page option"
  response :: "string \<Rightarrow> fetch"
  makedirs_fails :: "string \<Rightarrow> bool"

text \<open>
  The fields of \<open>RecursiveDirectoryDownloader\<close> that the crawl and the downloads use,
  with the regular files on disk (path to content). Two fields record what happened and
  are read by no operation: \<open>crawl_log\<close> lists, in order, \<open>Mark url\<close> for
  \<open>scanned_dirs.add(url)\<close>, \<open>Scan url\<close> for the listing fetch of \<open>url\<close>,
  \<open>Put url file_url local_path\<close> for \<open>file_queue.put\<close> inside the crawl of
  \<open>url\<close>, and \<open>Descend url dir_url\<close> for the recursive call on \<open>dir_url\<close> made by
  the crawl of \<open>url\<close>; \<open>requests\<close> lists the file URLs fetched over the network.
\<close>

datatype event =
    Mark string
  | Scan string
  | Put string string string
  | Descend string string

record downloader =
  base_url :: string
  output_dir :: string
  downloaded_files :: "string set"
  failed_downloads :: "string set"
  scanned_dirs :: "string set"
  file_queue :: "(string \<times> string) list"
  disk :: "string \<rightharpoonup> string"
  crawl_log :: "event list"
  requests :: "string list"

definition init :: "string \<Rightarrow> string \<Rightarrow> (string \<rightharpoonup> string) \<Rightarrow> downloader" where
  "init url out files_on_disk =
     \<lparr>base_url = rstrip_slash url, output_dir = out, downloaded_files = {},
      failed_downloads = {}, scanned_dirs = {}, file_queue = [], disk = files_on_disk,
      crawl_log = [], requests = []\<rparr>"

section \<open>The Crawler\<close>

definition get_directory_contents :: "env \<Rightarrow> string \<Rightarrow> items" where
  "get_directory_contents e url =
     (case listing e url of
        None \<Rightarrow> \<lparr>files = [], directories = []\<rparr>
      | Some html \<Rightarrow> parse_directory_listing html url)"

text \<open>The first loop of \<open>crawl_directory\<close>: every file of the listing is enqueued.\<close>

fun enqueue_files :: "string \<Rightarrow> string list \<Rightarrow> downloader \<Rightarrow> downloader" where
  "enqueue_files url [] d = d"
| "enqueue_files url (file_url # rest) d =
     (let local_path = get_local_path (output_dir d) file_url
      in enqueue_files url rest
           (d\<lparr>file_queue := file_queue d @ [(file_url, local_path)],
              crawl_log := crawl_log d @ [Put url file_url local_path]\<rparr>))"

text \<open>
  \<open>crawl_directory\<close> calls itself for every subdirectory, and a server can describe
  an endless directory graph, so the recursion carries fuel: the first argument bounds
  the depth of nested calls, and \<open>None\<close> means that the bound was reached.
  \<open>crawl_subdirectories\<close> is the second loop of \<open>crawl_directory url\<close>.
\<close>

fun crawl_directory :: "nat \<Rightarrow> env \<Rightarrow> string \<Rightarrow> downloader \<Rightarrow> downloader option"
  and crawl_subdirectories ::
    "nat \<Rightarrow> env \<Rightarrow> string \<Rightarrow> string list \<Rightarrow> downloader \<Rightarrow> downloader option"
where
  "crawl_directory 0 e url d = None"
| "crawl_directory (Suc n) e url d =
     (if url \<in> scanned_dirs d then Some d
      else
        let d1 = d\<lparr>scanned_dirs := insert url (scanned_dirs d),
                   crawl_log := crawl_log d @ [Mark url]\<rparr>;
            contents = get_directory_contents e url;
            d2 = d1\<lparr>crawl_log := crawl_log d1 @ [Scan url]\<rparr>;
            d3 = enqueue_files url (files contents) d2
        in crawl_subdirectories n e url (directories contents) d3)"
| "crawl_subdirectories n e url [] d = Some d"
| "crawl_subdirectories n e url (dir_url # rest) d =
     (case crawl_directory n e dir_url (d\<lparr>crawl_log := crawl_log d @ [Descend url dir_url]\<rparr>) of
        None \<Rightarrow> None
      | Some d' \<Rightarrow> crawl_subdirectories n e url rest d')"

section \<open>The Download Worker\<close>

text \<open>\<open>os.path.exists\<close> and \<open>os.path.getsize\<close> on the files of the disk.\<close>

definition path_exists :: "(string \<rightharpoonup> string) \<Rightarrow> string \<Rightarrow> bool" where
  "path_exists fs p = (fs p \<noteq> None)"

definition getsize :: "(string \<rightharpoonup> string) \<Rightarrow> string \<Rightarrow> nat" where
  "getsize fs p = (case fs p of None \<Rightarrow> 0 | Some content \<Rightarrow> length content)"

text \<open>
  The \<open>except\<close> clause of \<open>download_file\<close>: the URL is recorded as failed and a
  file at the target path is removed.
\<close>

definition on_exception :: "string \<Rightarrow> string \<Rightarrow> downloader \<Rightarrow> downloader" where
  "on_exception file_url local_path d =
     d\<lparr>failed_downloads := insert file_url (failed_downloads d),
       disk := (if path_exists (disk d) local_path then (disk d)(local_path := None)
                else disk d)\<rparr>"

text \<open>
  Directories are not represented on the disk:
  \<open>os.makedirs(os.path.dirname(local_path), exist_ok=True)\<close> either raises or changes
  nothing. It raises when the world says that the parent directory cannot be created,
  and never when the file itself exists, since its parent directory is there then.
\<close>

definition makedirs_raises :: "env \<Rightarrow> (string \<rightharpoonup> string) \<Rightarrow> string \<Rightarrow> bool" where
  "makedirs_raises e fs local_path =
     (makedirs_fails e local_path \<and> \<not> path_exists fs local_path)"

text \<open>
  \<open>download_file\<close> returns its boolean with the new state. The body is written in
  full, so the file's size is the length of the body.
\<close>

definition download_file ::
    "env \<Rightarrow> string \<Rightarrow> string \<Rightarrow> downloader \<Rightarrow> bool \<times> downloader" where
  "download_file e file_url local_path d =
     (if file_url \<in> downloaded_files d then (True, d)
      else if makedirs_raises e (disk d) local_path
      then (False, on_exception file_url local_path d)
      else if path_exists (disk d) local_path
      then (True, d\<lparr>downloaded_files := insert file_url (downloaded_files d)\<rparr>)
      else
        let d1 = d\<lparr>requests := requests d @ [file_url]\<rparr>
        in case response e file_url of
             FetchError \<Rightarrow> (False, on_exception file_url local_path d1)
           | Response content_type body \<Rightarrow>
               if contains content_type ''text/html'' \<and> contains body ''Index of''
               then (False, d1)
               else
                 let d2 = d1\<lparr>disk := (disk d1)(local_path \<mapsto> body)\<rparr>
                 in if path_exists (disk d2) local_path \<and> 0 < getsize (disk d2) local_path
                    then (True, d2\<lparr>downloaded_files := insert file_url (downloaded_files d2)\<rparr>)
                    else (False, on_exception file_url local_path d2))"

text \<open>
  The worker takes the items in queue order and runs \<open>download_file\<close> on each; the
  pause between two items changes no state. With one worker thread this is the order
  of the program; the crawl reads nothing that the worker writes, so the final state is
  that of the crawl followed by the downloads.
\<close>

fun worker :: "env \<Rightarrow> (string \<times> string) list \<Rightarrow> downloader \<Rightarrow> downloader" where
  "worker e [] d = d"
| "worker e ((file_url, local_path) # rest) d =
     worker e rest (snd (download_file e file_url local_path d))"

definition start_download :: "nat \<Rightarrow> env \<Rightarrow> downloader \<Rightarrow> downloader option" where
  "start_download fuel e d =
     (case crawl_directory fuel e (base_url d) d of
        None \<Rightarrow> None
      | Some d1 \<Rightarrow> Some (worker e (file_queue d1) (d1\<lparr>file_queue := []\<rparr>)))"

section \<open>Notions used to state the properties\<close>

text \<open>
  Lexical containment of a path under a root directory: the path is the root, a
  separator, and segments among which \<open>..\<close> never climbs above the root.
\<close>

fun stays_inside :: "nat \<Rightarrow> string list \<Rightarrow> bool" where
  "stays_inside depth [] = True"
| "stays_inside depth (seg # segs) =
     (if seg = ''..'' then 0 < depth \<and> stays_inside (depth - 1) segs
      else if seg = ''.'' \<or> seg = [] then stays_inside depth segs
      else stays_inside (Suc depth) segs)"

definition under_root :: "string \<Rightarrow> string \<Rightarrow> bool" where
  "under_root root p =
     (startswith p (root @ ''/'')
      \<and> stays_inside 0 (split_on (CHR ''/'') (drop (length root + 1) p)))"

text \<open>What a crawl log holds: the directories marked, those fetched, the work items
  enqueued and the subdirectories descended into, each in order.\<close>

fun marks :: "event list \<Rightarrow> string list" where
  "marks [] = []"
| "marks (Mark u # L) = u # marks L"
| "marks (ev # L) = marks L"

fun scans :: "event list \<Rightarrow> string list" where
  "scans [] = []"
| "scans (Scan u # L) = u # scans L"
| "scans (ev # L) = scans L"

fun puts :: "event list \<Rightarrow> (string \<times> string) list" where
  "puts [] = []"
| "puts (Put u f p # L) = (f, p) # puts L"
| "puts (ev # L) = puts L"

fun descents :: "event list \<Rightarrow> string list" where
  "descents [] = []"
| "descents (Descend u s # L) = s # descents L"
| "descents (ev # L) = descents L"

text \<open>The events after the first occurrence of \<open>ev\<close>.\<close>

definition since :: "event \<Rightarrow> event list \<Rightarrow> event list" where
  "since ev L = drop 1 (dropWhile (\<lambda>x. x \<noteq> ev) L)"

definition subdirs :: "env \<Rightarrow> string \<Rightarrow> string list" where
  "subdirs e u = directories (get_directory_contents e u)"

text \<open>
  Every directory marked after \<open>u\<close> has all the subdirectories of its listing marked.
\<close>

definition closed_since :: "env \<Rightarrow> string \<Rightarrow> event list \<Rightarrow> bool" where
  "closed_since e u seen =
     list_all (\<lambda>x. list_all (\<lambda>y. Mark y \<in> set seen) (subdirs e x)) (marks (since (Mark u) seen))"

text \<open>
  The condition under which an event may follow the events \<open>seen\<close>, and the logs all
  of whose events satisfy it. They carry the invariant of the crawl.
\<close>

fun event_ok :: "env \<Rightarrow> string \<Rightarrow> event list \<Rightarrow> event \<Rightarrow> bool" where
  "event_ok e out seen (Mark u) = (Mark u \<notin> set seen)"
| "event_ok e out seen (Scan u) = (seen \<noteq> [] \<and> last seen = Mark u)"
| "event_ok e out seen (Put u f p) =
     (Mark u \<in> set seen \<and> f \<in> set (files (get_directory_contents e u))
      \<and> p = get_local_path out f)"
| "event_ok e out seen (Descend u s) =
     (Mark u \<in> set seen
      \<and> list_all (\<lambda>f. Put u f (get_local_path out f) \<in> set seen)
           (files (get_directory_contents e u))
      \<and> list_all (\<lambda>t. Mark t \<in> set seen) (descents seen)
      \<and> closed_since e u seen)"

fun log_ok :: "env \<Rightarrow> string \<Rightarrow> event list \<Rightarrow> event list \<Rightarrow> bool" where
  "log_ok e out seen [] = True"
| "log_ok e out seen (ev # L) = (event_ok e out seen ev \<and> log_ok e out (seen @ [ev]) L)"

definition crawl_inv :: "env \<Rightarrow> downloader \<Rightarrow> bool" where
  "crawl_inv e d =
     (log_ok e (output_dir d) [] (crawl_log d)
      \<and> scanned_dirs d = set (marks (crawl_log d))
      \<and> scans (crawl_log d) = marks (crawl_log d)
      \<and> file_queue d = puts (crawl_log d)
      \<and> list_all (\<lambda>u. list_all (\<lambda>f. Put u f (get_local_path (output_dir d) f) \<in> set (crawl_log d))
                       (files (get_directory_contents e u))) (marks (crawl_log d)))"

definition crawl_post :: "env \<Rightarrow> downloader \<Rightarrow> downloader \<Rightarrow> bool" where
  "crawl_post e d d' =
     (crawl_inv e d' \<and> output_dir d' = output_dir d
      \<and> (\<exists>L. crawl_log d' = crawl_log d @ L
            \<and> list_all (\<lambda>x. list_all (\<lambda>y. y \<in> scanned_dirs d') (subdirs e x)) (marks L)))"

text \<open>
  The two conditions on the server's answer that decide an attempt at a file whose
  target path does not exist: the guard of line 90, and the outcomes after which
  \<open>download_file\<close> does not record a success.
\<close>

definition served_as_listing :: "env \<Rightarrow> string \<Rightarrow> bool" where
  "served_as_listing e u =
     (case response e u of
        FetchError \<Rightarrow> False
      | Response content_type body \<Rightarrow>
          contains content_type ''text/html'' \<and> contains body ''Index of'')"

definition attempt_fails :: "env \<Rightarrow> string \<Rightarrow> string \<Rightarrow> bool" where
  "attempt_fails e u p =
     (makedirs_fails e p \<or>
      (case response e u of
         FetchError \<Rightarrow> True
       | Response content_type body \<Rightarrow>
           (contains content_type ''text/html'' \<and> contains body ''Index of'') \<or> body = []))"

section \<open>Example servers\<close>

text \<open>
  A server whose listings form a cycle: the root \<open>http://h/a\<close> lists \<open>b/\<close>, and
  \<open>http://h/a/b/\<close> links back to \<open>/a/\<close>, which lists \<open>b/\<close> again.
\<close>

definition looping_server :: env where
  "looping_server =
     \<lparr>listing = (\<lambda>u.
        if u = ''http://h/a'' \<or> u = ''http://h/a/''
        then Some [\<lparr>attr_href = Some ''../'', link_text = ''Parent Directory''\<rparr>,
                   \<lparr>attr_href = Some ''b/'', link_text = ''b/''\<rparr>,
                   \<lparr>attr_href = Some ''f.txt'', link_text = ''f.txt''\<rparr>]
        else if u = ''http://h/a/b/''
        then Some [\<lparr>attr_href = Some ''/a/'', link_text = ''back''\<rparr>,
                   \<lparr>attr_href = Some ''g.txt'', link_text = ''g.txt''\<rparr>]
        else None),
      response = (\<lambda>u. if u = ''http://h/a/f.txt'' then Response ''text/plain'' ''data''
                       else FetchError),
      makedirs_fails = (\<lambda>p. False)\<rparr>"

text \<open>
  A server with three directories. \<open>/two\<close> lists the same file under two URLs that
  differ in the query string, of which the first is answered by an error;
  \<open>/three\<close> lists the failing URL once more after the good one; \<open>/pub\<close> lists
  \<open>sub\<close> without a trailing slash, and the server answers it with a listing page.
\<close>

definition mirror_server :: env where
  "mirror_server =
     \<lparr>listing = (\<lambda>u.
        if u = ''http://h/two''
        then Some [\<lparr>attr_href = Some ''f.txt?v=1'', link_text = ''f.txt (old)''\<rparr>,
                   \<lparr>attr_href = Some ''f.txt'', link_text = ''f.txt''\<rparr>]
        else if u = ''http://h/three''
        then Some [\<lparr>attr_href = Some ''f.txt?v=1'', link_text = ''f.txt (old)''\<rparr>,
                   \<lparr>attr_href = Some ''f.txt'', link_text = ''f.txt''\<rparr>,
                   \<lparr>attr_href = Some ''f.txt?v=1'', link_text = ''f.txt (again)''\<rparr>]
        else if u = ''http://h/pub''
        then Some [\<lparr>attr_href = Some ''sub'', link_text = ''sub''\<rparr>]
        else None),
      response = (\<lambda>u.
        if u = ''http://h/two/f.txt'' \<or> u = ''http://h/three/f.txt''
        then Response ''text/plain'' ''data''
        else if u = ''http://h/pub/sub''
        then Response ''text/html; charset=utf-8'' ''<h1>Index of /pub/sub</h1>''
        else FetchError),
      makedirs_fails = (\<lambda>p. False)\<rparr>"

section \<open>The Path Mapper leaves the output root\<close>

text \<open>
  C1. The claim: for every file URL, \<open>get_local_path\<close> yields a path confined under
  the output root, also when the URL's path holds traversal segments. The code does not
  achieve this. The URL path \<open>/..//etc/passwd\<close> loses its leading slash, then
  \<open>../\<close> is deleted and what remains starts with a slash again, so \<open>os.path.join\<close>
  discards the output root and returns \<open>/etc/passwd\<close>. In \<open>/.....///etc/passwd\<close>
  the single pass of \<open>replace\<close> deletes one \<open>../\<close> and one \<open>./\<close> and leaves
  \<open>../etc/passwd\<close>, which climbs out of the root. Both URLs are file URLs that
  the Listing Parser returns for a page linking to them. An ordinary URL stays inside.
\<close>

theorem get_local_path_leaves_output_root:
  "files (parse_directory_listing
       [\<lparr>attr_href = Some ''http://host/..//etc/passwd'', link_text = ''passwd''\<rparr>,
        \<lparr>attr_href = Some ''/.....///etc/passwd'', link_text = ''passwd''\<rparr>]
       ''http://host/pub'')
     = [''http://host/..//etc/passwd'', ''http://host/.....///etc/passwd'']
   \<and> get_local_path ''./downloaded_files'' ''http://host/..//etc/passwd'' = ''/etc/passwd''
   \<and> \<not> under_root ''./downloaded_files'' ''/etc/passwd''
   \<and> get_local_path ''./downloaded_files'' ''http://host/.....///etc/passwd''
       = ''./downloaded_files/../etc/passwd''
   \<and> \<not> under_root ''./downloaded_files'' ''./downloaded_files/../etc/passwd''
   \<and> under_root ''./downloaded_files''
         (get_local_path ''./downloaded_files'' ''http://host/a/b.txt'')"
  by code_simp

text \<open>
  C8. The claim: the sanitization is idempotent, applying the strip of \<open>../\<close> and
  \<open>./\<close> to an already sanitized path leaves it unchanged. The code strips in one pass:
  the sanitized form of \<open>.....///x\<close> is \<open>../x\<close>, and sanitizing that again gives
  \<open>x\<close>. The same holds for the relative path the mapper computes from a URL path.
\<close>

theorem sanitize_twice_differs:
  "sanitize ''.....///x'' = ''../x''
   \<and> sanitize (sanitize ''.....///x'') = ''x''
   \<and> relative_path ''/.....///x'' = ''../x''
   \<and> relative_path (relative_path ''/.....///x'') = ''x''"
  by code_simp

section \<open>The Listing Parser\<close>

lemma parse_links_eq:
  "parse_links ls base its =
     \<lparr>files = files its @ map (\<lambda>l. urljoin (base @ ''/'') (href_of l))
                (filter (\<lambda>l. \<not> skipped l \<and> \<not> endswith (href_of l) ''/'') ls),
      directories = directories its @ map (\<lambda>l. urljoin (base @ ''/'') (href_of l))
                (filter (\<lambda>l. \<not> skipped l \<and> endswith (href_of l) ''/'') ls)\<rparr>"
  by (induction ls arbitrary: its) (simp_all add: Let_def)

text \<open>
  C5, as the claim states it: a retained link is classified as a directory exactly when
  the path of its resolved URL ends in a slash. The code looks at the href instead.
  The href \<open>sub/?a=1\<close> resolves to a URL whose path \<open>/d/sub/\<close> ends in a slash and is
  classified as a file; the href \<open>x?a=/\<close> resolves to a URL whose path \<open>/d/x\<close> does
  not and is classified as a directory.
\<close>

theorem classification_by_resolved_path_counterexample:
  "files (parse_directory_listing [\<lparr>attr_href = Some ''sub/?a=1'', link_text = ''sub''\<rparr>]
            ''http://h/d'') = [''http://h/d/sub/?a=1'']
   \<and> directories (parse_directory_listing
         [\<lparr>attr_href = Some ''sub/?a=1'', link_text = ''sub''\<rparr>] ''http://h/d'') = []
   \<and> endswith (path (urlparse ''http://h/d/sub/?a=1'' '''')) ''/''
   \<and> directories (parse_directory_listing [\<lparr>attr_href = Some ''x?a=/'', link_text = ''x''\<rparr>]
         ''http://h/d'') = [''http://h/d/x?a=/'']
   \<and> \<not> endswith (path (urlparse ''http://h/d/x?a=/'' '''')) ''/''"
  by code_simp

text \<open>
  C5, amended: the links that are not skipped are resolved against the page URL followed
  by a slash, and a resolved URL is listed as a directory exactly when the link's href,
  stripped of surrounding whitespace, ends in a slash; otherwise it is listed as a file.
  Both lists keep the order of the page.
\<close>

theorem classification_follows_href:
  "directories (parse_directory_listing html base) =
     map (\<lambda>l. urljoin (base @ ''/'') (href_of l))
       (filter (\<lambda>l. \<not> skipped l \<and> endswith (href_of l) ''/'') html)
   \<and> files (parse_directory_listing html base) =
     map (\<lambda>l. urljoin (base @ ''/'') (href_of l))
       (filter (\<lambda>l. \<not> skipped l \<and> \<not> endswith (href_of l) ''/'') html)"
  by (simp add: parse_directory_listing_def parse_links_eq)

theorem classification_follows_href_witness:
  "directories (parse_directory_listing
       [\<lparr>attr_href = Some ''sub/'', link_text = ''sub/''\<rparr>,
        \<lparr>attr_href = Some ''/'', link_text = ''root''\<rparr>,
        \<lparr>attr_href = Some ''f.txt'', link_text = ''f.txt''\<rparr>] ''http://h/d'')
     = [''http://h/d/sub/'']
   \<and> files (parse_directory_listing
       [\<lparr>attr_href = Some ''sub/'', link_text = ''sub/''\<rparr>,
        \<lparr>attr_href = Some ''/'', link_text = ''root''\<rparr>,
        \<lparr>attr_href = Some ''f.txt'', link_text = ''f.txt''\<rparr>] ''http://h/d'')
     = [''http://h/d/f.txt'']"
proof -
  let ?html = "[\<lparr>attr_href = Some ''sub/'', link_text = ''sub/''\<rparr>,
        \<lparr>attr_href = Some ''/'', link_text = ''root''\<rparr>,
        \<lparr>attr_href = Some ''f.txt'', link_text = ''f.txt''\<rparr>]"
  have "map (\<lambda>l. urljoin (''http://h/d'' @ ''/'') (href_of l))
          (filter (\<lambda>l. \<not> skipped l \<and> endswith (href_of l) ''/'') ?html) = [''http://h/d/sub/'']"
    and "map (\<lambda>l. urljoin (''http://h/d'' @ ''/'') (href_of l))
          (filter (\<lambda>l. \<not> skipped l \<and> \<not> endswith (href_of l) ''/'') ?html) = [''http://h/d/f.txt'']"
    by code_simp+
  with classification_follows_href[of ?html "''http://h/d''"] show ?thesis by simp
qed

text \<open>
  C6. The claim: the output never contains a link whose href is empty, \<open>.\<close>,
  \<open>./\<close>, \<open>/\<close> or \<open>../\<close>, or starts with \<open>?\<close>, or whose text contains
  \<open>Parent Directory\<close>. The comment above line 43 announces that parent directory
  and self references are skipped, but the list of that line holds the empty string,
  \<open>../\<close>, \<open>./\<close> and \<open>/\<close>, not \<open>.\<close>: a link with the href \<open>.\<close> is
  kept, resolved to the page's own URL and listed as a file.
\<close>

theorem dot_href_is_kept:
  "files (parse_directory_listing [\<lparr>attr_href = Some ''.'', link_text = ''.''\<rparr>] ''http://h/d'')
     = [''http://h/d/'']"
  by code_simp

text \<open>
  The other cases of C6 hold: every URL of the output comes from a link of the page
  whose href, stripped of surrounding whitespace, is not empty, is none of \<open>../\<close>,
  \<open>./\<close> and \<open>/\<close>, does not start with \<open>?\<close>, and whose text does not contain
  \<open>Parent Directory\<close>.
\<close>

theorem parsed_urls_come_from_kept_links:
  assumes "u \<in> set (files (parse_directory_listing html base))
             \<union> set (directories (parse_directory_listing html base))"
  shows "\<exists>l\<in>set html. u = urljoin (base @ ''/'') (href_of l)
           \<and> href_of l \<noteq> '''' \<and> href_of l \<noteq> ''../'' \<and> href_of l \<noteq> ''./''
           \<and> href_of l \<noteq> ''/'' \<and> \<not> startswith (href_of l) ''?''
           \<and> \<not> contains (link_text l) ''Parent Directory''"
proof -
  from assms obtain l where "l \<in> set html" "\<not> skipped l" "u = urljoin (base @ ''/'') (href_of l)"
    by (auto simp: parse_directory_listing_def parse_links_eq)
  then show ?thesis by (auto simp: skipped_def)
qed

theorem parsed_urls_come_from_kept_links_witness:
  "''http://h/d/f.txt'' \<in> set (files (parse_directory_listing
       [\<lparr>attr_href = Some ''../'', link_text = ''Parent Directory''\<rparr>,
        \<lparr>attr_href = Some ''?C=N;O=D'', link_text = ''Name''\<rparr>,
        \<lparr>attr_href = Some ''f.txt'', link_text = ''f.txt''\<rparr>] ''http://h/d''))
   \<and> (\<exists>l\<in>set [\<lparr>attr_href = Some ''../'', link_text = ''Parent Directory''\<rparr>,
               \<lparr>attr_href = Some ''?C=N;O=D'', link_text = ''Name''\<rparr>,
               \<lparr>attr_href = Some ''f.txt'', link_text = ''f.txt''\<rparr>].
         ''http://h/d/f.txt'' = urljoin (''http://h/d'' @ ''/'') (href_of l)
         \<and> href_of l \<noteq> '''' \<and> href_of l \<noteq> ''../'' \<and> href_of l \<noteq> ''./''
         \<and> href_of l \<noteq> ''/'' \<and> \<not> startswith (href_of l) ''?''
         \<and> \<not> contains (link_text l) ''Parent Directory'')"
proof -
  have in_files: "''http://h/d/f.txt'' \<in> set (files (parse_directory_listing
       [\<lparr>attr_href = Some ''../'', link_text = ''Parent Directory''\<rparr>,
        \<lparr>attr_href = Some ''?C=N;O=D'', link_text = ''Name''\<rparr>,
        \<lparr>attr_href = Some ''f.txt'', link_text = ''f.txt''\<rparr>] ''http://h/d''))"
    by code_simp
  from in_files parsed_urls_come_from_kept_links[of "''http://h/d/f.txt''" _ "''http://h/d''"]
  show ?thesis by blast
qed

section \<open>Trailing slashes of the root URL\<close>

lemma dropWhile_replicate:
  "P c \<Longrightarrow> dropWhile P (replicate k c @ xs) = dropWhile P xs"
  by (induction k) simp_all

lemma rstrip_slash_replicate: "rstrip_slash (s @ replicate k (CHR ''/'')) = rstrip_slash s"
  by (simp add: rstrip_slash_def dropWhile_replicate)

text \<open>
  C10. Two root URLs that differ only in the number of trailing slashes give the same
  initial downloader, since the constructor strips them all; hence the same crawl (the
  same visited set, the same work items in the same order) and the same run.
\<close>

theorem trailing_slashes_of_root_ignored:
  "init (root @ replicate k (CHR ''/'')) out fs = init (root @ replicate m (CHR ''/'')) out fs
   \<and> crawl_directory fuel e (base_url (init (root @ replicate k (CHR ''/'')) out fs))
         (init (root @ replicate k (CHR ''/'')) out fs)
     = crawl_directory fuel e (base_url (init (root @ replicate m (CHR ''/'')) out fs))
         (init (root @ replicate m (CHR ''/'')) out fs)
   \<and> start_download fuel e (init (root @ replicate k (CHR ''/'')) out fs)
     = start_download fuel e (init (root @ replicate m (CHR ''/'')) out fs)"
  by (simp add: init_def rstrip_slash_replicate)

section \<open>A listing served in place of a file\<close>

text \<open>
  C3. The claim: when a file fetch returns HTML whose body contains \<open>Index of\<close>,
  \<open>download_file\<close> writes nothing and adds the URL to \<open>failed_downloads\<close>. The code
  writes nothing and returns \<open>False\<close>, but it returns from inside the \<open>try\<close> block and
  never reaches the \<open>except\<close> clause, the only place that records a failure: the URL
  ends up in neither set, in \<open>download_file\<close> and at the end of the whole run.
\<close>

theorem disguised_listing_not_recorded:
  "(case download_file mirror_server ''http://h/pub/sub'' ''out/pub/sub''
           (init ''http://h/pub/'' ''out'' Map.empty) of
      (ok, d) \<Rightarrow>
        \<not> ok \<and> requests d = [''http://h/pub/sub''] \<and> disk d ''out/pub/sub'' = None
        \<and> ''http://h/pub/sub'' \<notin> failed_downloads d
        \<and> ''http://h/pub/sub'' \<notin> downloaded_files d)
   \<and> (case start_download 2 mirror_server (init ''http://h/pub/'' ''out'' Map.empty) of
        None \<Rightarrow> False
      | Some d \<Rightarrow>
          requests d = [''http://h/pub/sub''] \<and> disk d ''out/pub/sub'' = None
          \<and> ''http://h/pub/sub'' \<notin> failed_downloads d
          \<and> ''http://h/pub/sub'' \<notin> downloaded_files d)"
  by code_simp

section \<open>The crawl: invariant of the log\<close>

lemma marks_append [simp]: "marks (A @ B) = marks A @ marks B"
  by (induction A rule: marks.induct) simp_all

lemma scans_append [simp]: "scans (A @ B) = scans A @ scans B"
  by (induction A rule: scans.induct) simp_all

lemma puts_append [simp]: "puts (A @ B) = puts A @ puts B"
  by (induction A rule: puts.induct) simp_all

lemma descents_append [simp]: "descents (A @ B) = descents A @ descents B"
  by (induction A rule: descents.induct) simp_all

lemma in_descents: "s \<in> set (descents L) \<longleftrightarrow> (\<exists>u. Descend u s \<in> set L)"
  by (induction L rule: descents.induct) auto

lemma descents_map_Put [simp]: "descents (map (\<lambda>f. Put u f (g f)) fs) = []"
  by (induction fs) simp_all

lemma in_marks [simp]: "u \<in> set (marks L) \<longleftrightarrow> Mark u \<in> set L"
  by (induction L rule: marks.induct) auto

lemma in_scans [simp]: "u \<in> set (scans L) \<longleftrightarrow> Scan u \<in> set L"
  by (induction L rule: scans.induct) auto

lemma marks_map_Put [simp]: "marks (map (\<lambda>f. Put u f (g f)) fs) = []"
  by (induction fs) simp_all

lemma scans_map_Put [simp]: "scans (map (\<lambda>f. Put u f (g f)) fs) = []"
  by (induction fs) simp_all

lemma puts_map_Put [simp]: "puts (map (\<lambda>f. Put u f (g f)) fs) = map (\<lambda>f. (f, g f)) fs"
  by (induction fs) simp_all

lemma log_ok_append: "log_ok e out seen (A @ B) \<longleftrightarrow> log_ok e out seen A \<and> log_ok e out (seen @ A) B"
  by (induction A arbitrary: seen) simp_all

lemma log_ok_puts:
  "Mark u \<in> set seen \<Longrightarrow> set fs \<subseteq> set (files (get_directory_contents e u)) \<Longrightarrow>
   log_ok e out seen (map (\<lambda>f. Put u f (get_local_path out f)) fs)"
  by (induction fs arbitrary: seen) simp_all

lemma since_append: "ev \<in> set A \<Longrightarrow> since ev (A @ B) = since ev A @ B"
  by (induction A) (auto simp: since_def)

lemma since_fresh: "ev \<notin> set A \<Longrightarrow> since ev (A @ ev # B) = B"
  by (induction A) (auto simp: since_def)

lemma enqueue_files_eq:
  "enqueue_files url fs d =
     d\<lparr>file_queue := file_queue d @ map (\<lambda>f. (f, get_local_path (output_dir d) f)) fs,
       crawl_log := crawl_log d @ map (\<lambda>f. Put url f (get_local_path (output_dir d) f)) fs\<rparr>"
  by (induction fs arbitrary: d) (simp_all add: Let_def)

lemma crawl_directory_unfold:
  "url \<notin> scanned_dirs d \<Longrightarrow>
   crawl_directory (Suc n) e url d =
     crawl_subdirectories n e url (subdirs e url)
       (d\<lparr>scanned_dirs := insert url (scanned_dirs d),
          file_queue := file_queue d @
            map (\<lambda>f. (f, get_local_path (output_dir d) f)) (files (get_directory_contents e url)),
          crawl_log := crawl_log d @ [Mark url, Scan url] @
            map (\<lambda>f. Put url f (get_local_path (output_dir d) f))
              (files (get_directory_contents e url))\<rparr>)"
  by (simp add: Let_def enqueue_files_eq subdirs_def)


lemma crawl_inv_Descend:
  assumes "crawl_inv e d" "url \<in> scanned_dirs d" "closed_since e url (crawl_log d)"
    and "list_all (\<lambda>t. Mark t \<in> set (crawl_log d)) (descents (crawl_log d))"
  shows "crawl_inv e (d\<lparr>crawl_log := crawl_log d @ [Descend url s]\<rparr>)"
  using assms by (auto simp: crawl_inv_def log_ok_append list_all_iff)

lemma crawl_inv_header:
  assumes "crawl_inv e d" "url \<notin> scanned_dirs d"
  shows "crawl_inv e
       (d\<lparr>scanned_dirs := insert url (scanned_dirs d),
          file_queue := file_queue d @
            map (\<lambda>f. (f, get_local_path (output_dir d) f)) (files (get_directory_contents e url)),
          crawl_log := crawl_log d @ [Mark url, Scan url] @
            map (\<lambda>f. Put url f (get_local_path (output_dir d) f))
              (files (get_directory_contents e url))\<rparr>)"
  using assms
  by (auto simp: crawl_inv_def log_ok_append log_ok_puts list_all_iff)

lemma closed_since_header:
  assumes "Mark url \<notin> set L"
  shows "closed_since e url (L @ [Mark url, Scan url] @ map (\<lambda>f. Put url f (g f)) fs)"
  using assms by (simp add: closed_since_def since_fresh)

lemma closed_since_extend:
  assumes "closed_since e url L" "Mark url \<in> set L"
    and "list_all (\<lambda>x. list_all (\<lambda>y. Mark y \<in> set (L @ M)) (subdirs e x)) (marks M)"
  shows "closed_since e url (L @ M)"
  using assms by (auto simp: closed_since_def since_append list_all_iff)

lemma crawl_subdirectories_post:
  assumes A: "\<And>url d d'. crawl_inv e d \<Longrightarrow>
                 list_all (\<lambda>t. t = url \<or> Mark t \<in> set (crawl_log d)) (descents (crawl_log d)) \<Longrightarrow>
                 crawl_directory n e url d = Some d' \<Longrightarrow>
                 crawl_post e d d' \<and> url \<in> scanned_dirs d'
                 \<and> list_all (\<lambda>t. Mark t \<in> set (crawl_log d')) (descents (crawl_log d'))"
  shows "crawl_inv e d \<Longrightarrow> url \<in> scanned_dirs d \<Longrightarrow> closed_since e url (crawl_log d) \<Longrightarrow>
         list_all (\<lambda>t. Mark t \<in> set (crawl_log d)) (descents (crawl_log d)) \<Longrightarrow>
         crawl_subdirectories n e url ds d = Some d' \<Longrightarrow>
         crawl_post e d d' \<and> set ds \<subseteq> scanned_dirs d' \<and> closed_since e url (crawl_log d')
         \<and> list_all (\<lambda>t. Mark t \<in> set (crawl_log d')) (descents (crawl_log d'))"
proof (induction ds arbitrary: d)
  case Nil
  then show ?case by (simp add: crawl_post_def)
next
  case (Cons s rest)
  let ?d0 = "d\<lparr>crawl_log := crawl_log d @ [Descend url s]\<rparr>"
  from Cons.prems(5) obtain d1 where
    c1: "crawl_directory n e s ?d0 = Some d1" and c2: "crawl_subdirectories n e url rest d1 = Some d'"
    by (auto split: option.splits)
  have inv0: "crawl_inv e ?d0"
    using Cons.prems(1-4) by (rule crawl_inv_Descend)
  have pre0: "list_all (\<lambda>t. t = s \<or> Mark t \<in> set (crawl_log ?d0)) (descents (crawl_log ?d0))"
    using Cons.prems(4) by (auto simp: list_all_iff)
  from A[OF inv0 pre0 c1] have p1: "crawl_post e ?d0 d1" and s1: "s \<in> scanned_dirs d1"
    and dm1: "list_all (\<lambda>t. Mark t \<in> set (crawl_log d1)) (descents (crawl_log d1))" by auto
  from p1 obtain L1 where inv1: "crawl_inv e d1" and out1: "output_dir d1 = output_dir d"
    and log1: "crawl_log d1 = crawl_log d @ [Descend url s] @ L1"
    and cl1: "list_all (\<lambda>x. list_all (\<lambda>y. y \<in> scanned_dirs d1) (subdirs e x)) (marks L1)"
    by (auto simp: crawl_post_def)
  have sc1: "scanned_dirs d1 = set (marks (crawl_log d1))" using inv1 by (simp add: crawl_inv_def)
  have sc: "scanned_dirs d = set (marks (crawl_log d))" using Cons.prems(1) by (simp add: crawl_inv_def)
  have url1: "url \<in> scanned_dirs d1" using Cons.prems(2) sc sc1 log1 by auto
  have mk: "Mark url \<in> set (crawl_log d)" using Cons.prems(2) sc by simp
  have closed1: "closed_since e url (crawl_log d1)"
    unfolding log1
    by (rule closed_since_extend[OF Cons.prems(3) mk])
       (use cl1 sc1 log1 in \<open>auto simp: list_all_iff\<close>)
  from Cons.IH[OF inv1 url1 closed1 dm1 c2]
  have p2: "crawl_post e d1 d'" and sub2: "set rest \<subseteq> scanned_dirs d'"
    and closed2: "closed_since e url (crawl_log d')"
    and dm2: "list_all (\<lambda>t. Mark t \<in> set (crawl_log d')) (descents (crawl_log d'))" by auto
  from p2 obtain L2 where inv2: "crawl_inv e d'" and out2: "output_dir d' = output_dir d1"
    and log2: "crawl_log d' = crawl_log d1 @ L2"
    and cl2: "list_all (\<lambda>x. list_all (\<lambda>y. y \<in> scanned_dirs d') (subdirs e x)) (marks L2)"
    by (auto simp: crawl_post_def)
  have sc2: "scanned_dirs d' = set (marks (crawl_log d'))" using inv2 by (simp add: crawl_inv_def)
  have mono: "scanned_dirs d1 \<subseteq> scanned_dirs d'" using sc1 sc2 log2 by auto
  have "crawl_log d' = crawl_log d @ ([Descend url s] @ L1 @ L2)" using log1 log2 by simp
  moreover have "list_all (\<lambda>x. list_all (\<lambda>y. y \<in> scanned_dirs d') (subdirs e x))
                   (marks ([Descend url s] @ L1 @ L2))"
    using cl1 cl2 mono by (auto simp: list_all_iff)
  ultimately have "crawl_post e d d'"
    using inv2 out1 out2 unfolding crawl_post_def by metis
  then show ?case using sub2 s1 mono closed2 dm2 by auto
qed

lemma crawl_directory_post:
  "crawl_inv e d \<Longrightarrow>
   list_all (\<lambda>t. t = url \<or> Mark t \<in> set (crawl_log d)) (descents (crawl_log d)) \<Longrightarrow>
   crawl_directory n e url d = Some d' \<Longrightarrow>
   crawl_post e d d' \<and> url \<in> scanned_dirs d'
   \<and> list_all (\<lambda>t. Mark t \<in> set (crawl_log d')) (descents (crawl_log d'))"
proof (induction n arbitrary: url d d')
  case 0
  then show ?case by simp
next
  case (Suc n)
  show ?case
  proof (cases "url \<in> scanned_dirs d")
    case True
    with Suc.prems show ?thesis by (auto simp: crawl_post_def crawl_inv_def list_all_iff)
  next
    case False
    let ?fs = "files (get_directory_contents e url)"
    let ?d3 = "d\<lparr>scanned_dirs := insert url (scanned_dirs d),
          file_queue := file_queue d @ map (\<lambda>f. (f, get_local_path (output_dir d) f)) ?fs,
          crawl_log := crawl_log d @ [Mark url, Scan url] @
            map (\<lambda>f. Put url f (get_local_path (output_dir d) f)) ?fs\<rparr>"
    have c: "crawl_subdirectories n e url (subdirs e url) ?d3 = Some d'"
      using Suc.prems(3) unfolding crawl_directory_unfold[OF False] .
    have inv3: "crawl_inv e ?d3" using Suc.prems(1) False by (rule crawl_inv_header)
    have sc: "scanned_dirs d = set (marks (crawl_log d))" using Suc.prems(1) by (simp add: crawl_inv_def)
    have nm: "Mark url \<notin> set (crawl_log d)" using False sc by simp
    have closed3: "closed_since e url (crawl_log ?d3)"
      using closed_since_header[OF nm] by simp
    have dm3: "list_all (\<lambda>t. Mark t \<in> set (crawl_log ?d3)) (descents (crawl_log ?d3))"
      using Suc.prems(2) by (auto simp: list_all_iff)
    have "crawl_post e ?d3 d' \<and> set (subdirs e url) \<subseteq> scanned_dirs d'
          \<and> closed_since e url (crawl_log d')
          \<and> list_all (\<lambda>t. Mark t \<in> set (crawl_log d')) (descents (crawl_log d'))"
      by (rule crawl_subdirectories_post[OF Suc.IH inv3 _ closed3 dm3 c]) simp_all
    then obtain L where dm': "list_all (\<lambda>t. Mark t \<in> set (crawl_log d')) (descents (crawl_log d'))" and inv': "crawl_inv e d'" and out: "output_dir d' = output_dir d"
      and log': "crawl_log d' = crawl_log ?d3 @ L"
      and cl: "list_all (\<lambda>x. list_all (\<lambda>y. y \<in> scanned_dirs d') (subdirs e x)) (marks L)"
      and sub: "set (subdirs e url) \<subseteq> scanned_dirs d'"
      by (auto simp: crawl_post_def)
    have sc': "scanned_dirs d' = set (marks (crawl_log d'))" using inv' by (simp add: crawl_inv_def)
    have in': "url \<in> scanned_dirs d'" using sc' log' by simp
    let ?L = "[Mark url, Scan url] @ map (\<lambda>f. Put url f (get_local_path (output_dir d) f)) ?fs @ L"
    have "crawl_log d' = crawl_log d @ ?L" using log' by simp
    moreover have "list_all (\<lambda>x. list_all (\<lambda>y. y \<in> scanned_dirs d') (subdirs e x)) (marks ?L)"
      using cl sub by (auto simp: list_all_iff)
    ultimately have "crawl_post e d d'" using inv' out unfolding crawl_post_def by blast
    then show ?thesis using in' dm' by simp
  qed
qed
lemma crawl_subdirectories_mono:
  assumes A: "\<And>url d d'. crawl_directory n e url d = Some d' \<Longrightarrow> scanned_dirs d \<subseteq> scanned_dirs d'"
  shows "crawl_subdirectories n e url ds d = Some d' \<Longrightarrow> scanned_dirs d \<subseteq> scanned_dirs d'"
proof (induction ds arbitrary: d)
  case Nil
  then show ?case by simp
next
  case (Cons s rest)
  then obtain d1 where
    c1: "crawl_directory n e s (d\<lparr>crawl_log := crawl_log d @ [Descend url s]\<rparr>) = Some d1"
    and c2: "crawl_subdirectories n e url rest d1 = Some d'"
    by (auto split: option.splits)
  from A[OF c1] Cons.IH[OF c2] show ?case by auto
qed

lemma crawl_directory_mono:
  "crawl_directory n e url d = Some d' \<Longrightarrow> scanned_dirs d \<subseteq> scanned_dirs d'"
proof (induction n arbitrary: url d d')
  case 0
  then show ?case by simp
next
  case (Suc n)
  show ?case
  proof (cases "url \<in> scanned_dirs d")
    case True
    with Suc.prems show ?thesis by simp
  next
    case False
    from Suc.prems[unfolded crawl_directory_unfold[OF False]]
    show ?thesis using crawl_subdirectories_mono[OF Suc.IH] by fastforce
  qed
qed

lemma crawl_subdirectories_returns:
  assumes A: "\<And>url d. url \<in> U \<Longrightarrow> card (U - scanned_dirs d) < n \<Longrightarrow>
                \<exists>d'. crawl_directory n e url d = Some d'"
    and fin: "finite U"
  shows "set ds \<subseteq> U \<Longrightarrow> card (U - scanned_dirs d) < n \<Longrightarrow>
         \<exists>d'. crawl_subdirectories n e url ds d = Some d'"
proof (induction ds arbitrary: d)
  case Nil
  then show ?case by simp
next
  case (Cons s rest)
  let ?d0 = "d\<lparr>crawl_log := crawl_log d @ [Descend url s]\<rparr>"
  from Cons.prems have "s \<in> U" "card (U - scanned_dirs ?d0) < n" by simp_all
  from A[OF this] obtain d1 where c1: "crawl_directory n e s ?d0 = Some d1" ..
  have "scanned_dirs d \<subseteq> scanned_dirs d1" using crawl_directory_mono[OF c1] by simp
  then have "U - scanned_dirs d1 \<subseteq> U - scanned_dirs d" by auto
  then have "card (U - scanned_dirs d1) \<le> card (U - scanned_dirs d)"
    using fin by (simp add: card_mono)
  with Cons.prems have "card (U - scanned_dirs d1) < n" by simp
  from Cons.IH[OF _ this] Cons.prems(1) obtain d' where
    "crawl_subdirectories n e url rest d1 = Some d'" by auto
  with c1 show ?case by simp
qed

lemma crawl_directory_returns:
  assumes fin: "finite U" and closed: "\<forall>u\<in>U. set (subdirs e u) \<subseteq> U"
  shows "url \<in> U \<Longrightarrow> card (U - scanned_dirs d) < n \<Longrightarrow> \<exists>d'. crawl_directory n e url d = Some d'"
proof (induction n arbitrary: url d)
  case 0
  then show ?case by simp
next
  case (Suc n)
  show ?case
  proof (cases "url \<in> scanned_dirs d")
    case True
    then show ?thesis by simp
  next
    case False
    let ?fs = "files (get_directory_contents e url)"
    let ?d3 = "d\<lparr>scanned_dirs := insert url (scanned_dirs d),
          file_queue := file_queue d @ map (\<lambda>f. (f, get_local_path (output_dir d) f)) ?fs,
          crawl_log := crawl_log d @ [Mark url, Scan url] @
            map (\<lambda>f. Put url f (get_local_path (output_dir d) f)) ?fs\<rparr>"
    have "U - scanned_dirs ?d3 \<subset> U - scanned_dirs d" using False Suc.prems(1) by auto
    then have "card (U - scanned_dirs ?d3) < card (U - scanned_dirs d)"
      using fin by (simp add: psubset_card_mono)
    with Suc.prems(2) have less: "card (U - scanned_dirs ?d3) < n" by simp
    have sub: "set (subdirs e url) \<subseteq> U" using closed Suc.prems(1) by blast
    from crawl_subdirectories_returns[OF Suc.IH fin sub less]
    show ?thesis unfolding crawl_directory_unfold[OF False] by blast
  qed
qed

lemma log_ok_split:
  "log_ok e out [] (A @ ev # B) \<Longrightarrow> log_ok e out [] A \<and> event_ok e out A ev"
  by (simp add: log_ok_append)

lemma log_ok_distinct_marks: "log_ok e out seen L \<Longrightarrow> distinct (marks L) \<and> (\<forall>u\<in>set (marks L). Mark u \<notin> set seen)"
proof (induction L arbitrary: seen)
  case Nil
  then show ?case by simp
next
  case (Cons ev L)
  from Cons.prems have "event_ok e out seen ev" "log_ok e out (seen @ [ev]) L" by simp_all
  with Cons.IH[of "seen @ [ev]"] show ?case by (cases ev) auto
qed

lemma count_scans: "count_list L (Scan v) = count_list (scans L) v"
  by (induction L rule: scans.induct) auto

lemma distinct_count_1: "distinct xs \<Longrightarrow> x \<in> set xs \<Longrightarrow> count_list xs x = 1"
  by (induction xs) auto

lemma reachable_scanned:
  assumes "(url, v) \<in> {(x, y). y \<in> set (subdirs e x)}\<^sup>*" "url \<in> S"
    and "\<forall>x\<in>S. set (subdirs e x) \<subseteq> S"
  shows "v \<in> S"
  using assms by (induction rule: rtrancl_induct) auto

lemma fresh_crawl_inv:
  "scanned_dirs d = {} \<Longrightarrow> crawl_log d = [] \<Longrightarrow> file_queue d = [] \<Longrightarrow> crawl_inv e d"
  by (simp add: crawl_inv_def)

lemma looping_server_directories:
  "directories (get_directory_contents looping_server ''http://h/a'') = [''http://h/a/b/'']"
  "directories (get_directory_contents looping_server ''http://h/a/b/'') = [''http://h/a/'']"
  "directories (get_directory_contents looping_server ''http://h/a/'') = [''http://h/a/b/'']"
  by code_simp+

lemma looping_server_log:
  "map_option crawl_log
     (crawl_directory 4 looping_server ''http://h/a'' (init ''http://h/a/'' ''out'' Map.empty)) =
   Some [Mark ''http://h/a'', Scan ''http://h/a'',
         Put ''http://h/a'' ''http://h/a/f.txt'' ''out/a/f.txt'',
         Descend ''http://h/a'' ''http://h/a/b/'',
         Mark ''http://h/a/b/'', Scan ''http://h/a/b/'',
         Put ''http://h/a/b/'' ''http://h/a/b/g.txt'' ''out/a/b/g.txt'',
         Descend ''http://h/a/b/'' ''http://h/a/'',
         Mark ''http://h/a/'', Scan ''http://h/a/'',
         Put ''http://h/a/'' ''http://h/a/f.txt'' ''out/a/f.txt'',
         Descend ''http://h/a/'' ''http://h/a/b/'']"
  by code_simp


lemma crawl_fuel_Suc:
  "crawl_directory n e url d = Some d' \<Longrightarrow> crawl_directory (Suc n) e url d = Some d'"
  "crawl_subdirectories n e url ds d = Some d' \<Longrightarrow>
   crawl_subdirectories (Suc n) e url ds d = Some d'"
proof (induction n e url d and n e url ds d arbitrary: d' and d'
    rule: crawl_directory_crawl_subdirectories.induct)
  case (1 e url d)
  then show ?case by simp
next
  case (2 n e url d)
  show ?case
  proof (cases "url \<in> scanned_dirs d")
    case True
    with "2.prems" show ?thesis by simp
  next
    case False
    from "2.IH"[OF False refl refl refl refl] "2.prems" False
    show ?thesis by (simp add: Let_def)
  qed
next
  case (3 n e url d)
  then show ?case by simp
next
  case (4 n e url dir_url rest d)
  from "4.prems" obtain d1 where
    c1: "crawl_directory n e dir_url (d\<lparr>crawl_log := crawl_log d @ [Descend url dir_url]\<rparr>) = Some d1"
    and c2: "crawl_subdirectories n e url rest d1 = Some d'"
    by (auto split: option.splits)
  from "4.IH"(1)[OF c1] "4.IH"(2)[OF c1 c2] show ?case by simp
qed

lemma crawl_fuel_mono:
  assumes "crawl_directory n e url d = Some d'" and "n \<le> m"
  shows "crawl_directory m e url d = Some d'"
  using assms(2)
proof (induction m)
  case 0
  with assms(1) show ?case by simp
next
  case (Suc m)
  show ?case
  proof (cases "n = Suc m")
    case True
    with assms(1) show ?thesis by (simp only:)
  next
    case False
    with Suc.prems have "n \<le> m" by simp
    from crawl_fuel_Suc(1)[OF Suc.IH[OF this]] show ?thesis .
  qed
qed

lemma crawl_reaches:
  "crawl_directory n e url d = Some d' \<Longrightarrow>
     scanned_dirs d' \<subseteq> scanned_dirs d \<union> {v. (url, v) \<in> {(x, y). y \<in> set (subdirs e x)}\<^sup>*}"
  "crawl_subdirectories n e url ds d = Some d' \<Longrightarrow>
     scanned_dirs d' \<subseteq> scanned_dirs d
        \<union> {v. \<exists>s\<in>set ds. (s, v) \<in> {(x, y). y \<in> set (subdirs e x)}\<^sup>*}"
proof (induction n e url d and n e url ds d arbitrary: d' and d'
    rule: crawl_directory_crawl_subdirectories.induct)
  case (1 e url d)
  then show ?case by simp
next
  case (2 n e url d)
  let ?E = "{(x, y). y \<in> set (subdirs e x)}"
  show ?case
  proof (cases "url \<in> scanned_dirs d")
    case True
    with "2.prems" show ?thesis by auto
  next
    case False
    from "2.IH"[OF False refl refl refl refl] "2.prems" False
    have "scanned_dirs d' \<subseteq> insert url (scanned_dirs d)
        \<union> {v. \<exists>s\<in>set (subdirs e url). (s, v) \<in> ?E\<^sup>*}"
      by (simp add: Let_def enqueue_files_eq subdirs_def)
    moreover have "(url, v) \<in> ?E\<^sup>*" if "s \<in> set (subdirs e url)" "(s, v) \<in> ?E\<^sup>*" for s v
      using that by (auto intro: converse_rtrancl_into_rtrancl)
    ultimately show ?thesis by auto
  qed
next
  case (3 n e url d)
  then show ?case by simp
next
  case (4 n e url dir_url rest d)
  from "4.prems" obtain d1 where
    c1: "crawl_directory n e dir_url (d\<lparr>crawl_log := crawl_log d @ [Descend url dir_url]\<rparr>) = Some d1"
    and c2: "crawl_subdirectories n e url rest d1 = Some d'"
    by (auto split: option.splits)
  from "4.IH"(1)[OF c1] "4.IH"(2)[OF c1 c2] show ?case by auto
qed

section \<open>Termination and single fetch on finite directory graphs\<close>

text \<open>
  C4. Let \<open>U\<close> be a finite set of URLs that holds the root and, with each of its
  members, the directories of that member's listing: a finite directory graph, with or
  without cycles. Started on a fresh downloader with more fuel than \<open>U\<close> has
  elements, \<open>crawl_directory\<close> returns, and returns the same state with any larger
  amount of fuel. In that state \<open>scanned_dirs\<close> is the set of directories reachable
  from the root through listings; the log holds exactly one fetch for each of them and
  none for any other URL; and every fetch is preceded in the log, immediately, by the
  marking of the same URL. The fuel bounds the depth of nested calls, which the model
  does not limit otherwise.
\<close>

theorem crawl_directory_terminates_fetching_once:
  assumes "finite U" and "url \<in> U"
    and "\<forall>u\<in>U. set (directories (get_directory_contents e u)) \<subseteq> U"
    and "card U < fuel"
    and "scanned_dirs d = {}" and "crawl_log d = []" and "file_queue d = []"
  shows "\<exists>d'. (\<forall>m\<ge>fuel. crawl_directory m e url d = Some d')
           \<and> scanned_dirs d' =
               {v. (url, v) \<in> {(x, y). y \<in> set (directories (get_directory_contents e x))}\<^sup>*}
           \<and> (\<forall>v. count_list (crawl_log d') (Scan v) = (if v \<in> scanned_dirs d' then 1 else 0))
           \<and> (\<forall>A u B. crawl_log d' = A @ Scan u # B \<longrightarrow> A \<noteq> [] \<and> last A = Mark u)"
proof -
  let ?E = "{(x, y). y \<in> set (directories (get_directory_contents e x))}"
  have "card (U - scanned_dirs d) < fuel" using assms(4,5) by simp
  with crawl_directory_returns[OF assms(1), of e url d fuel] assms(2,3)
  obtain d' where c: "crawl_directory fuel e url d = Some d'" by (auto simp: subdirs_def)
  have more: "\<forall>m\<ge>fuel. crawl_directory m e url d = Some d'"
    using crawl_fuel_mono[OF c] by blast
  have inv: "crawl_inv e d" using assms(5-7) by (rule fresh_crawl_inv)
  from crawl_directory_post[OF inv _ c] assms(6)
  have post: "crawl_post e d d'" and root: "url \<in> scanned_dirs d'" by simp_all
  then obtain inv': "crawl_inv e d'"
    and cl: "list_all (\<lambda>x. list_all (\<lambda>y. y \<in> scanned_dirs d') (subdirs e x)) (marks (crawl_log d'))"
    using assms(6) by (auto simp: crawl_post_def)
  from inv' have ok: "log_ok e (output_dir d') [] (crawl_log d')"
    and sc: "scanned_dirs d' = set (marks (crawl_log d'))"
    and sm: "scans (crawl_log d') = marks (crawl_log d')"
    by (simp_all add: crawl_inv_def)
  have closed: "\<forall>x\<in>scanned_dirs d'. set (subdirs e x) \<subseteq> scanned_dirs d'"
    using cl sc by (auto simp: list_all_iff)
  have "\<forall>v. (url, v) \<in> ?E\<^sup>* \<longrightarrow> v \<in> scanned_dirs d'"
    using reachable_scanned[OF _ root closed] by (auto simp: subdirs_def)
  moreover have "scanned_dirs d' \<subseteq> {v. (url, v) \<in> ?E\<^sup>*}"
    using crawl_reaches(1)[OF c] assms(5) by (simp add: subdirs_def)
  ultimately have reach: "scanned_dirs d' = {v. (url, v) \<in> ?E\<^sup>*}" by blast
  have dist: "distinct (scans (crawl_log d'))"
    using log_ok_distinct_marks[OF ok] sm by simp
  have once: "\<forall>v. count_list (crawl_log d') (Scan v) = (if v \<in> scanned_dirs d' then 1 else 0)"
    using dist sc sm by (auto simp: count_scans distinct_count_1)
  have before: "\<forall>A u B. crawl_log d' = A @ Scan u # B \<longrightarrow> A \<noteq> [] \<and> last A = Mark u"
  proof (intro allI impI)
    fix A u B assume "crawl_log d' = A @ Scan u # B"
    with ok have "event_ok e (output_dir d') A (Scan u)" using log_ok_split by metis
    then show "A \<noteq> [] \<and> last A = Mark u" by simp
  qed
  show ?thesis using more reach once before by blast
qed


theorem crawl_directory_terminates_fetching_once_witness:
  "\<exists>d'. crawl_directory 4 looping_server ''http://h/a'' (init ''http://h/a/'' ''out'' Map.empty)
          = Some d'
        \<and> ''http://h/a/'' \<in> scanned_dirs d'
        \<and> count_list (crawl_log d') (Scan ''http://h/a/b/'') = 1"
proof -
  let ?U = "{''http://h/a'', ''http://h/a/b/'', ''http://h/a/''}"
  let ?E = "{(x, y). y \<in> set (directories (get_directory_contents looping_server x))}"
  have closed: "\<forall>u\<in>?U. set (directories (get_directory_contents looping_server u)) \<subseteq> ?U"
    by (simp add: looping_server_directories)
  have "(''http://h/a'', ''http://h/a/b/'') \<in> ?E" "(''http://h/a/b/'', ''http://h/a/'') \<in> ?E"
    by (simp_all add: looping_server_directories)
  then have r1: "(''http://h/a'', ''http://h/a/b/'') \<in> ?E\<^sup>*"
    and r2: "(''http://h/a'', ''http://h/a/'') \<in> ?E\<^sup>*"
    by (blast intro: rtrancl_trans)+
  have fresh: "scanned_dirs (init ''http://h/a/'' ''out'' Map.empty) = {}"
    "crawl_log (init ''http://h/a/'' ''out'' Map.empty) = []"
    "file_queue (init ''http://h/a/'' ''out'' Map.empty) = []"
    by (simp_all add: init_def)
  have "finite ?U" "''http://h/a'' \<in> ?U" "card ?U < 4" by simp_all
  from crawl_directory_terminates_fetching_once[OF this(1,2) closed this(3) fresh]
  obtain d' where run: "\<forall>m\<ge>4. crawl_directory m looping_server ''http://h/a''
        (init ''http://h/a/'' ''out'' Map.empty) = Some d'"
    and reach: "scanned_dirs d' = {v. (''http://h/a'', v) \<in> ?E\<^sup>*}"
    and once: "\<forall>v. count_list (crawl_log d') (Scan v) = (if v \<in> scanned_dirs d' then 1 else 0)"
    by blast
  from run have "crawl_directory 4 looping_server ''http://h/a''
        (init ''http://h/a/'' ''out'' Map.empty) = Some d'" by simp
  with reach once r1 r2 show ?thesis by auto
qed

section \<open>Order of enqueueing and descent\<close>

text \<open>
  C9. A subdirectory is visited from \<open>u\<close> when the crawl of \<open>u\<close> calls
  \<open>crawl_directory\<close> on it (the event \<open>Descend u s\<close>); a call on a directory
  that was marked earlier, as happens in a cycle, returns at once. In the log of a
  crawl started on a fresh downloader: whenever the crawl of a directory \<open>u\<close>
  descends into a subdirectory, every file of \<open>u\<close>'s listing has been enqueued
  before, every subdirectory descended into earlier has been marked, and every directory
  marked since \<open>u\<close> was marked has all the subdirectories of its own listing marked
  (the earlier subdirectories of \<open>u\<close> are explored in full before the next one is
  entered). A work item is enqueued only after the directory whose listing holds its URL
  has been marked, with the local path of that URL. The queue holds the enqueued items
  in the order of the log, among them every file of every visited directory.
\<close>

theorem crawl_directory_order:
  assumes "crawl_directory fuel e url d = Some d'"
    and "scanned_dirs d = {}" and "crawl_log d = []" and "file_queue d = []"
  shows "(\<forall>A u s B. crawl_log d' = A @ Descend u s # B \<longrightarrow>
            (\<forall>f\<in>set (files (get_directory_contents e u)).
                Put u f (get_local_path (output_dir d) f) \<in> set A)
            \<and> (\<forall>u0 s0. Descend u0 s0 \<in> set A \<longrightarrow> Mark s0 \<in> set A)
            \<and> (\<forall>A1 A2 x y. A = A1 @ Mark u # A2 \<longrightarrow> Mark x \<in> set A2 \<longrightarrow>
                   y \<in> set (directories (get_directory_contents e x)) \<longrightarrow> Mark y \<in> set A))
       \<and> (\<forall>A u f p B. crawl_log d' = A @ Put u f p # B \<longrightarrow>
            Mark u \<in> set A \<and> f \<in> set (files (get_directory_contents e u))
            \<and> p = get_local_path (output_dir d) f)
       \<and> file_queue d' = puts (crawl_log d')
       \<and> (\<forall>u\<in>scanned_dirs d'. \<forall>f\<in>set (files (get_directory_contents e u)).
            (f, get_local_path (output_dir d) f) \<in> set (file_queue d'))"
proof -
  have inv: "crawl_inv e d" using assms(2-4) by (rule fresh_crawl_inv)
  from crawl_directory_post[OF inv _ assms(1)] assms(3)
  have post: "crawl_post e d d'" by simp
  then have inv': "crawl_inv e d'" and out: "output_dir d' = output_dir d"
    by (simp_all add: crawl_post_def)
  from inv' have ok: "log_ok e (output_dir d) [] (crawl_log d')"
    and sc: "scanned_dirs d' = set (marks (crawl_log d'))"
    and fq: "file_queue d' = puts (crawl_log d')"
    and allput: "list_all (\<lambda>u. list_all (\<lambda>f. Put u f (get_local_path (output_dir d) f) \<in> set (crawl_log d'))
                       (files (get_directory_contents e u))) (marks (crawl_log d'))"
    by (simp_all add: crawl_inv_def out)
  have descend: "(\<forall>f\<in>set (files (get_directory_contents e u)).
                Put u f (get_local_path (output_dir d) f) \<in> set A)
            \<and> (\<forall>u0 s0. Descend u0 s0 \<in> set A \<longrightarrow> Mark s0 \<in> set A)
            \<and> (\<forall>A1 A2 x y. A = A1 @ Mark u # A2 \<longrightarrow> Mark x \<in> set A2 \<longrightarrow>
                   y \<in> set (directories (get_directory_contents e x)) \<longrightarrow> Mark y \<in> set A)"
    if split: "crawl_log d' = A @ Descend u s # B" for A u s B
  proof -
    from ok split have okA: "log_ok e (output_dir d) [] A"
      and ev: "event_ok e (output_dir d) A (Descend u s)"
      using log_ok_split by metis+
    from ev have 1: "\<forall>f\<in>set (files (get_directory_contents e u)).
                Put u f (get_local_path (output_dir d) f) \<in> set A"
      and 2: "\<forall>u0 s0. Descend u0 s0 \<in> set A \<longrightarrow> Mark s0 \<in> set A"
      and cl: "closed_since e u A"
      by (auto simp: list_all_iff in_descents)
    have 3: "Mark y \<in> set A"
      if "A = A1 @ Mark u # A2" "Mark x \<in> set A2"
        "y \<in> set (directories (get_directory_contents e x))" for A1 A2 x y
    proof -
      from okA that(1) have "event_ok e (output_dir d) A1 (Mark u)"
        using log_ok_split by metis
      then have "since (Mark u) A = A2" using that(1) by (simp add: since_fresh)
      with cl that(2,3) show ?thesis
        by (auto simp: closed_since_def list_all_iff subdirs_def)
    qed
    from 1 2 3 show ?thesis by blast
  qed
  have put: "Mark u \<in> set A \<and> f \<in> set (files (get_directory_contents e u))
            \<and> p = get_local_path (output_dir d) f"
    if split: "crawl_log d' = A @ Put u f p # B" for A u f p B
  proof -
    from ok split have "event_ok e (output_dir d) A (Put u f p)"
      using log_ok_split by metis
    then show ?thesis by simp
  qed
  have in_puts: "(f, p) \<in> set (puts L)" if "Put u f p \<in> set L" for u f p L
    using that by (induction L rule: puts.induct) auto
  have queued: "\<forall>u\<in>scanned_dirs d'. \<forall>f\<in>set (files (get_directory_contents e u)).
            (f, get_local_path (output_dir d) f) \<in> set (file_queue d')"
  proof (intro ballI)
    fix u f
    assume u: "u \<in> scanned_dirs d'" and f: "f \<in> set (files (get_directory_contents e u))"
    from u sc have "u \<in> set (marks (crawl_log d'))" by blast
    with allput f have "Put u f (get_local_path (output_dir d) f) \<in> set (crawl_log d')"
      unfolding list_all_iff by blast
    then show "(f, get_local_path (output_dir d) f) \<in> set (file_queue d')"
      using in_puts fq by simp
  qed
  from descend put fq queued show ?thesis by blast
qed

theorem crawl_directory_order_witness:
  "\<exists>d'. crawl_directory 4 looping_server ''http://h/a'' (init ''http://h/a/'' ''out'' Map.empty)
          = Some d'
        \<and> file_queue d' = [(''http://h/a/f.txt'', ''out/a/f.txt''),
                            (''http://h/a/b/g.txt'', ''out/a/b/g.txt''),
                            (''http://h/a/f.txt'', ''out/a/f.txt'')]
        \<and> Put ''http://h/a/b/'' ''http://h/a/b/g.txt'' ''out/a/b/g.txt''
            \<in> set (take 7 (crawl_log d'))
        \<and> crawl_log d' ! 7 = Descend ''http://h/a/b/'' ''http://h/a/''"
proof -
  from looping_server_log obtain d' where
    c: "crawl_directory 4 looping_server ''http://h/a'' (init ''http://h/a/'' ''out'' Map.empty)
          = Some d'"
    and log: "crawl_log d' = [Mark ''http://h/a'', Scan ''http://h/a'',
         Put ''http://h/a'' ''http://h/a/f.txt'' ''out/a/f.txt'',
         Descend ''http://h/a'' ''http://h/a/b/'',
         Mark ''http://h/a/b/'', Scan ''http://h/a/b/'',
         Put ''http://h/a/b/'' ''http://h/a/b/g.txt'' ''out/a/b/g.txt'',
         Descend ''http://h/a/b/'' ''http://h/a/'',
         Mark ''http://h/a/'', Scan ''http://h/a/'',
         Put ''http://h/a/'' ''http://h/a/f.txt'' ''out/a/f.txt'',
         Descend ''http://h/a/'' ''http://h/a/b/'']"
    by auto
  have fresh: "scanned_dirs (init ''http://h/a/'' ''out'' Map.empty) = {}"
    "crawl_log (init ''http://h/a/'' ''out'' Map.empty) = []"
    "file_queue (init ''http://h/a/'' ''out'' Map.empty) = []"
    by (simp_all add: init_def)
  from crawl_directory_order[OF c fresh]
  have "file_queue d' = puts (crawl_log d')" by blast
  with c log show ?thesis by simp
qed

section \<open>Single download attempts\<close>

lemmas download_defs =
  download_file_def on_exception_def makedirs_raises_def Let_def path_exists_def getsize_def
  served_as_listing_def attempt_fails_def





lemma download_file_keeps_files:
  "path_exists (disk d) x \<Longrightarrow> disk (snd (download_file e u p d)) x = disk d x"
  by (auto simp: download_defs split: fetch.splits)









section \<open>The worker over a queue\<close>



lemma worker_keeps_files:
  "path_exists (disk d) x \<Longrightarrow> disk (worker e q d) x = disk d x"
proof (induction q arbitrary: d)
  case Nil
  then show ?case by simp
next
  case (Cons item rest)
  obtain u p where item: "item = (u, p)" by (cases item)
  let ?d1 = "snd (download_file e u p d)"
  have 1: "disk ?d1 x = disk d x" using Cons.prems by (rule download_file_keeps_files)
  with Cons.prems have "path_exists (disk ?d1) x" by (simp add: path_exists_def)
  from Cons.IH[OF this] 1 show ?case unfolding item by simp
qed










section \<open>The crawl leaves the tracker sets and the disk alone\<close>



lemma in_puts: "(f, p) \<in> set (puts L) \<longleftrightarrow> (\<exists>u. Put u f p \<in> set L)"
  by (induction L rule: puts.induct) auto






section \<open>The terminal sets after the queue has drained\<close>









section \<open>Running the crawl a second time\<close>







end
